theory Spec2Isabelle
  imports
    Main
    "HOL-Library.Word"
    "HOL-Library.Sublist"
    "HOL-Library.List_Lexorder"
    "HOL-Library.Product_Lexorder"
begin

unbundle bit_operations_syntax

section \<open>Python strings\<close>

text \<open>
  A Python \<open>str\<close> is a sequence of Unicode code points: \<open>len\<close> counts code points,
  comparison is lexicographic by code point, and iterating a string yields one-character
  strings.  The model keeps a string as the list of its code points.  \<open>str\<close> turns an
  Isabelle string literal of ASCII characters into such a list.
\<close>

type_synonym pychar = nat
type_synonym pystr = "pychar list"

definition str :: "string \<Rightarrow> pystr" where
  "str s = map of_char s"

subsection \<open>\<open>str.find(c, start)\<close> for a one-character needle\<close>

text \<open>
  \<open>find_at full c i\<close> scans \<open>full\<close>, whose first character has index \<open>i\<close>, for the
  first occurrence of \<open>c\<close>; the result is the index, or \<open>-1\<close> when there is none.
\<close>

fun find_at :: "pystr \<Rightarrow> pychar \<Rightarrow> nat \<Rightarrow> int" where
  "find_at [] c i = -1"
| "find_at (x # xs) c i = (if x = c then int i else find_at xs c (Suc i))"

text \<open>
  \<open>full.find(c, start)\<close>: a negative \<open>start\<close> counts from the end and is clipped at 0; a
  \<open>start\<close> beyond the end finds nothing.
\<close>

definition str_find :: "pystr \<Rightarrow> pychar \<Rightarrow> int \<Rightarrow> int" where
  "str_find full c start =
     (let n = int (length full);
          s = (if start < 0 then max 0 (start + n) else start)
      in if n < s then -1 else find_at (drop (nat s) full) c (nat s))"

section \<open>SubsequenceMatcher\<close>

text \<open>
  \<^verbatim>\<open>
  def subseqmatch(sub, full):
      if not sub:
          return False
      pos = -1
      for c in sub:
          pos = full.find(c, pos + 1)
          if pos == -1:
              return False
      return True
  \<close>
  The \<open>for\<close> loop is \<open>subseq_loop\<close>, with the loop variable \<open>pos\<close> as an argument.
\<close>

fun subseq_loop :: "pystr \<Rightarrow> pystr \<Rightarrow> int \<Rightarrow> bool" where
  "subseq_loop [] full pos = True"
| "subseq_loop (c # cs) full pos =
     (let pos' = str_find full c (pos + 1)
      in if pos' = -1 then False else subseq_loop cs full pos')"

definition subseqmatch :: "pystr \<Rightarrow> pystr \<Rightarrow> bool" where
  "subseqmatch sub full = (if sub = [] then False else subseq_loop sub full (-1))"

text \<open>
  The characters of \<open>q\<close> appear in \<open>c\<close> in order at strictly increasing positions:
  \<open>ps\<close> lists one position of \<open>c\<close> for each character of \<open>q\<close>.
\<close>

definition occurs_at :: "pystr \<Rightarrow> pystr \<Rightarrow> nat list \<Rightarrow> bool" where
  "occurs_at q c ps \<longleftrightarrow>
     length ps = length q \<and> sorted_wrt (<) ps \<and>
     list_all (\<lambda>p. p < length c) ps \<and> map (\<lambda>p. c ! p) ps = q"

section \<open>CommandIndex\<close>

text \<open>
  What can go wrong in the operating system calls of the scan, as the exception the call
  raises.
\<close>

datatype error = PermissionError | OSError | ValueError

text \<open>
  The part of the process environment and of the file system that \<open>get_path_commands\<close>
  reads.  Directories are named by the entry of the search path as it is written there
  (\<open>Path(p)\<close> is applied by the environment), directory entries by their base name:
  \<^item> \<open>PATH\<close>: the value of the search-path variable, \<open>None\<close> when it is unset;
  \<open>os.getenv("PATH", "")\<close> is \<open>getenv_PATH\<close>;
  \<^item> \<open>is_dir p\<close>: the answer of \<open>Path(p).is_dir()\<close>, or the exception it raises (older
  versions of the library raise where the path may not be examined, newer ones answer
  \<open>False\<close>);
  \<^item> \<open>iterdir p\<close>: the base names \<open>f.name\<close> of the entries that \<open>Path(p).iterdir()\<close>
  yields, or the exception raised while opening or reading the directory;
  \<^item> \<open>is_file p f\<close>: the answer of \<open>(Path(p) / f).is_file()\<close>, or the exception it
  raises;
  \<^item> \<open>access_X_OK p f\<close>: \<open>os.access(Path(p) / f, os.X_OK)\<close>, which answers \<open>False\<close> where
  the file may not be examined.
\<close>

record os_env =
  PATH :: "pystr option"
  is_dir :: "pystr \<Rightarrow> error + bool"
  iterdir :: "pystr \<Rightarrow> error + pystr list"
  is_file :: "pystr \<Rightarrow> pystr \<Rightarrow> error + bool"
  access_X_OK :: "pystr \<Rightarrow> pystr \<Rightarrow> bool"

definition getenv_PATH :: "os_env \<Rightarrow> pystr" where
  "getenv_PATH env = (case PATH env of None \<Rightarrow> [] | Some v \<Rightarrow> v)"

text \<open>\<open>os.pathsep\<close> on a POSIX system, the colon.\<close>

definition pathsep :: pychar where
  "pathsep = 58"

text \<open>\<open>s.split(sep)\<close> for a one-character separator: never empty, \<open>"".split(sep) == [""]\<close>.\<close>

fun str_split :: "pychar \<Rightarrow> pystr \<Rightarrow> pystr list" where
  "str_split sep [] = [[]]"
| "str_split sep (c # cs) =
     (if c = sep then [] # str_split sep cs
      else (case str_split sep cs of [] \<Rightarrow> [[c]] | w # ws \<Rightarrow> (c # w) # ws))"

text \<open>
  \<^verbatim>\<open>
  def get_path_commands() -> list[str]:
      commands: set[str] = set()
      for p in (Path(p) for p in os.getenv("PATH", "").split(os.pathsep)):
          if not p or not p.is_dir():
              continue
          for f in p.iterdir():
              if f.is_file() and os.access(f, os.X_OK):
                  commands.add(f.name)
      return sorted(commands, key=lambda c: (len(c), c))
  \<close>
  A \<open>Path\<close> object is always true, so \<open>not p\<close> is false for every entry and the guard is
  \<open>not p.is_dir()\<close>.  There is no \<open>try\<close> in the function: an exception of \<open>is_dir\<close>,
  \<open>iterdir\<close> or \<open>is_file\<close> leaves both loops and the function.

  \<open>scan_entries\<close> is the inner loop over the entries of one directory, \<open>scan_dirs\<close> the
  outer loop over the search path, both with the set \<open>commands\<close> as accumulator.
\<close>

fun scan_entries :: "os_env \<Rightarrow> pystr \<Rightarrow> pystr list \<Rightarrow> pystr set \<Rightarrow> error + pystr set" where
  "scan_entries env p [] commands = Inr commands"
| "scan_entries env p (f # fs) commands =
     (case is_file env p f of
        Inl e \<Rightarrow> Inl e
      | Inr regular \<Rightarrow>
          scan_entries env p fs
            (if regular \<and> access_X_OK env p f then insert f commands else commands))"

fun scan_dirs :: "os_env \<Rightarrow> pystr list \<Rightarrow> pystr set \<Rightarrow> error + pystr set" where
  "scan_dirs env [] commands = Inr commands"
| "scan_dirs env (p # ps) commands =
     (case is_dir env p of
        Inl e \<Rightarrow> Inl e
      | Inr dir \<Rightarrow>
          if \<not> dir then scan_dirs env ps commands
          else (case iterdir env p of
                  Inl e \<Rightarrow> Inl e
                | Inr fs \<Rightarrow>
                    (case scan_entries env p fs commands of
                       Inl e \<Rightarrow> Inl e
                     | Inr commands' \<Rightarrow> scan_dirs env ps commands')))"

text \<open>The sort key \<open>lambda c: (len(c), c)\<close>; Python compares the tuples lexicographically.\<close>

definition command_key :: "pystr \<Rightarrow> nat \<times> pystr" where
  "command_key c = (length c, c)"

text \<open>
  \<open>sorted(commands, key=k)\<close> over a set: a stable sort by key of the elements in the
  set's iteration order.  Python leaves that order open; the model enumerates the set with
  \<open>sorted_list_of_set\<close>.
\<close>

definition py_sorted :: "('a \<Rightarrow> 'k::linorder) \<Rightarrow> ('a::linorder) set \<Rightarrow> 'a list" where
  "py_sorted k commands = sort_key k (sorted_list_of_set commands)"

definition path_entries :: "os_env \<Rightarrow> pystr list" where
  "path_entries env = str_split pathsep (getenv_PATH env)"

definition get_path_commands :: "os_env \<Rightarrow> error + pystr list" where
  "get_path_commands env =
     (case scan_dirs env (path_entries env) {} of
        Inl e \<Rightarrow> Inl e
      | Inr commands \<Rightarrow> Inr (py_sorted command_key commands))"

text \<open>
  The order of the index in the spec's words: by name length ascending, then by name
  lexicographically ascending.
\<close>

definition index_less :: "pystr \<Rightarrow> pystr \<Rightarrow> bool" where
  "index_less a b \<longleftrightarrow> length a < length b \<or> (length a = length b \<and> a < b)"

text \<open>
  The names the scan is to collect: the entries of the search path's existing directories
  that are regular files and executable.
\<close>

definition executables :: "os_env \<Rightarrow> pystr set" where
  "executables env =
     {f. \<exists>p fs. p \<in> set (path_entries env) \<and> is_dir env p = Inr True \<and>
           iterdir env p = Inr fs \<and> f \<in> set fs \<and> is_file env p f = Inr True \<and>
           access_X_OK env p f}"

text \<open>
  No call of the scan raises: every entry of the search path can be examined, every
  existing directory among them can be enumerated, and every entry of such a directory can
  be examined.
\<close>

definition dir_ok :: "os_env \<Rightarrow> pystr \<Rightarrow> bool" where
  "dir_ok env p \<longleftrightarrow>
     (case is_dir env p of
        Inl e \<Rightarrow> False
      | Inr dir \<Rightarrow>
          dir \<longrightarrow>
            (case iterdir env p of
               Inl e \<Rightarrow> False
             | Inr fs \<Rightarrow> list_all (\<lambda>f. \<not> isl (is_file env p f)) fs))"

definition scan_ok :: "os_env \<Rightarrow> bool" where
  "scan_ok env \<longleftrightarrow> list_all (dir_ok env) (path_entries env)"

text \<open>The exception \<open>e\<close> is raised by a call that the scan makes for the entry \<open>p\<close>.\<close>

definition raised_at :: "os_env \<Rightarrow> pystr \<Rightarrow> error \<Rightarrow> bool" where
  "raised_at env p e \<longleftrightarrow>
     is_dir env p = Inl e \<or>
     is_dir env p = Inr True \<and>
       (iterdir env p = Inl e \<or>
        (\<exists>fs. iterdir env p = Inr fs \<and> (\<exists>f\<in>set fs. is_file env p f = Inl e)))"

section \<open>Shell quoting and trimming\<close>

text \<open>
  \<open>shlex.quote\<close>:
  \<^verbatim>\<open>
  _find_unsafe = re.compile(r'[^\w@%+=:,./-]', re.ASCII).search
  def quote(s):
      if not s:
          return "''"
      if _find_unsafe(s) is None:
          return s
      return "'" + s.replace("'", "'\"'\"'") + "'"
  \<close>
\<close>

definition shlex_safe :: "pychar \<Rightarrow> bool" where
  "shlex_safe c \<longleftrightarrow>
     (97 \<le> c \<and> c \<le> 122) \<or> (65 \<le> c \<and> c \<le> 90) \<or> (48 \<le> c \<and> c \<le> 57) \<or>
     c \<in> set (str ''_@%+=:,./-'')"

definition replace_quote :: "pystr \<Rightarrow> pystr" where
  "replace_quote s = concat (map (\<lambda>c. if c = 39 then [39, 34, 39, 34, 39] else [c]) s)"

definition shlex_quote :: "pystr \<Rightarrow> pystr" where
  "shlex_quote s =
     (if s = [] then [39, 39]
      else if list_all shlex_safe s then s
      else [39] @ replace_quote s @ [39])"

text \<open>\<open>str.isspace\<close> on one character, and \<open>str.strip()\<close>.\<close>

definition py_isspace :: "pychar \<Rightarrow> bool" where
  "py_isspace c \<longleftrightarrow>
     (9 \<le> c \<and> c \<le> 13) \<or> (28 \<le> c \<and> c \<le> 32) \<or> c = 133 \<or> c = 160 \<or> c = 5760 \<or>
     (8192 \<le> c \<and> c \<le> 8202) \<or> c = 8232 \<or> c = 8233 \<or> c = 8239 \<or> c = 8287 \<or> c = 12288"

definition str_strip :: "pystr \<Rightarrow> pystr" where
  "str_strip s = rev (dropWhile py_isspace (rev (dropWhile py_isspace s)))"

subsection \<open>What the shell makes of a command line\<close>

text \<open>
  \<open>subprocess.Popen(cmdline, shell=True)\<close> hands \<open>cmdline\<close> to \<open>/bin/sh -c\<close>.  The shell
  breaks a command line into words by its rules of quoting and token recognition; this is
  the model of these rules for a line that is one simple command:
  \<^item> outside quotes a blank (space or tab) ends the word before it, a single or a double
  quote opens a quoted stretch of the current word, and any other character that is not
  special to the shell stands for itself;
  \<^item> between single quotes every character stands for itself, up to the closing single
  quote;
  \<^item> between double quotes every character stands for itself up to the closing double
  quote, except the dollar sign, the backquote and the backslash;
  \<^item> a quoted stretch makes a word even when it is empty.

  The result is the list of words with the quotes removed: the command name and its
  arguments.  It is \<open>None\<close> for a line outside this fragment: a quote that is not closed,
  or outside single quotes a character that makes the shell do more than take a word
  (newline and the operators, expansions, backslash, patterns, comment and tilde).

  \<open>sh_scan\<close> reads the line from left to right; \<open>quoting\<close> says where it is, and the
  second argument is the word read so far, \<open>None\<close> between words.
\<close>

datatype quoting = Unquoted | Single | Double

definition sh_blank :: "pychar \<Rightarrow> bool" where
  "sh_blank c \<longleftrightarrow> c = 32 \<or> c = 9"

text \<open>Newline (10), backslash (92) and the other characters special outside quotes.\<close>

definition sh_special :: "pychar \<Rightarrow> bool" where
  "sh_special c \<longleftrightarrow> c = 10 \<or> c = 92 \<or> c \<in> set (str ''|&;<>()$`*?[#~'')"

definition begun :: "pystr option \<Rightarrow> pystr" where
  "begun w = (case w of None \<Rightarrow> [] | Some v \<Rightarrow> v)"

fun sh_scan :: "quoting \<Rightarrow> pystr option \<Rightarrow> pystr \<Rightarrow> pystr list option" where
  "sh_scan Unquoted w [] = Some (case w of None \<Rightarrow> [] | Some v \<Rightarrow> [v])"
| "sh_scan Single w [] = None"
| "sh_scan Double w [] = None"
| "sh_scan Unquoted w (c # cs) =
     (if c = 39 then sh_scan Single (Some (begun w)) cs
      else if c = 34 then sh_scan Double (Some (begun w)) cs
      else if sh_blank c then
        (case w of
           None \<Rightarrow> sh_scan Unquoted None cs
         | Some v \<Rightarrow> map_option ((#) v) (sh_scan Unquoted None cs))
      else if sh_special c then None
      else sh_scan Unquoted (Some (begun w @ [c])) cs)"
| "sh_scan Single w (c # cs) =
     (if c = 39 then sh_scan Unquoted w cs
      else sh_scan Single (Some (begun w @ [c])) cs)"
| "sh_scan Double w (c # cs) =
     (if c = 34 then sh_scan Unquoted w cs
      else if c = 36 \<or> c = 96 \<or> c = 92 then None
      else sh_scan Double (Some (begun w @ [c])) cs)"

definition sh_words :: "pystr \<Rightarrow> pystr list option" where
  "sh_words cmdline = sh_scan Unquoted None cmdline"

section \<open>The launcher\<close>

text \<open>
  Which widget owns the keyboard: the entry, or the button at an index of the suggestion
  box.
\<close>

datatype focus = Entry | SuggestionItem nat

text \<open>
  The state of the \<open>Launcher\<close> object and of its widgets, as far as the handlers read or
  write it:
  \<^item> \<open>commands\<close>: \<open>self.commands\<close>, the index built at start;
  \<^item> \<open>entry_text\<close>, \<open>entry_hexpand\<close>: the text and the horizontal-expand flag of
  \<open>self.entry\<close>;
  \<^item> \<open>scroller_visible\<close>: the visibility of \<open>self.scroller\<close>;
  \<^item> \<open>suggestion_box\<close>: the children of \<open>self.suggestion_box\<close>.  A button is made from a
  command \<open>cmd\<close>, which is both its label and the argument bound to its click handler; the
  model keeps the button as that command;
  \<^item> \<open>focus\<close>: the widget with the keyboard focus;
  \<^item> \<open>spawned\<close>: the command strings given to \<open>subprocess.Popen(..., shell=True)\<close> so
  far, in order.  The process object is dropped at once and never waited for, so a launch
  is only this record;
  \<^item> \<open>quit_called\<close>: whether \<open>self.quit()\<close> has been called.
\<close>

record launcher =
  commands :: "pystr list"
  entry_text :: pystr
  entry_hexpand :: bool
  scroller_visible :: bool
  suggestion_box :: "pystr list"
  focus :: focus
  spawned :: "pystr list"
  quit_called :: bool

text \<open>The state after \<open>__init__\<close> and \<open>build_ui\<close>.\<close>

definition build_ui :: "pystr list \<Rightarrow> launcher" where
  "build_ui cmds =
     \<lparr>commands = cmds, entry_text = [], entry_hexpand = True, scroller_visible = False,
      suggestion_box = [], focus = Entry, spawned = [], quit_called = False\<rparr>"

text \<open>The states of the input router, read off the launcher's state.\<close>

datatype router_state = Editing | Browsing | Terminated

definition router_state :: "launcher \<Rightarrow> router_state" where
  "router_state st =
     (if quit_called st then Terminated
      else (case focus st of Entry \<Rightarrow> Editing | SuggestionItem i \<Rightarrow> Browsing))"

subsection \<open>Suggestion handling\<close>

definition show_suggestions :: "launcher \<Rightarrow> launcher" where
  "show_suggestions st = st\<lparr>entry_hexpand := False, scroller_visible := True\<rparr>"

definition hide_suggestions :: "launcher \<Rightarrow> launcher" where
  "hide_suggestions st = st\<lparr>entry_hexpand := True, scroller_visible := False\<rparr>"

text \<open>One round of the loop \<open>for cmd in matches[:20]\<close>: a new button is appended.\<close>

definition append_button :: "pystr \<Rightarrow> launcher \<Rightarrow> launcher" where
  "append_button cmd st = st\<lparr>suggestion_box := suggestion_box st @ [cmd]\<rparr>"

text \<open>
  \<open>refresh_suggestions\<close>: the \<open>while\<close> loop removes every child of the suggestion box,
  then the matches are computed over the whole index; without a match the scroller is
  hidden and nothing is appended, otherwise it is shown and the first 20 matches get a
  button each.
\<close>

definition refresh_suggestions :: "pystr \<Rightarrow> launcher \<Rightarrow> launcher" where
  "refresh_suggestions text st =
     (let st1 = st\<lparr>suggestion_box := []\<rparr>;
          matches = filter (\<lambda>command. subseqmatch text command) (commands st1)
      in if matches = [] then hide_suggestions st1
         else fold append_button (take 20 matches) (show_suggestions st1))"

definition on_entry_changed :: "launcher \<Rightarrow> launcher" where
  "on_entry_changed st = refresh_suggestions (entry_text st) st"

subsection \<open>Entry handling\<close>

text \<open>
  \<open>self.entry.set_text(t)\<close>: the entry holds \<open>t\<close>, and the handler connected to its
  \<open>changed\<close> signal runs on the new text.
\<close>

definition set_text :: "pystr \<Rightarrow> launcher \<Rightarrow> launcher" where
  "set_text t st = on_entry_changed (st\<lparr>entry_text := t\<rparr>)"

text \<open>
  \<open>append_char\<close>: \<open>"\b"\<close> is the one-character string of code point 8, and \<open>text[:-1]\<close>
  of the empty string is the empty string.
\<close>

definition append_char :: "pystr \<Rightarrow> launcher \<Rightarrow> launcher" where
  "append_char char st =
     (let text = entry_text st
      in set_text (if char \<noteq> [8] then text @ char else butlast text) st)"

definition focus_entry :: "launcher \<Rightarrow> launcher" where
  "focus_entry st = st\<lparr>focus := Entry\<rparr>"

definition set_cmd :: "pystr \<Rightarrow> launcher \<Rightarrow> launcher" where
  "set_cmd cmd st = set_text (shlex_quote cmd) st"

subsection \<open>Command execution\<close>

definition Popen :: "pystr \<Rightarrow> launcher \<Rightarrow> launcher" where
  "Popen cmdline st = st\<lparr>spawned := spawned st @ [cmdline]\<rparr>"

definition quit :: "launcher \<Rightarrow> launcher" where
  "quit st = st\<lparr>quit_called := True\<rparr>"

definition exec_one :: "pystr \<Rightarrow> launcher \<Rightarrow> launcher" where
  "exec_one cmd st = Popen (shlex_quote cmd) st"

definition on_activate_entry :: "launcher \<Rightarrow> launcher" where
  "on_activate_entry st =
     (let cmdline = str_strip (entry_text st)
      in if cmdline = [] then st else quit (Popen cmdline st))"

subsection \<open>Key handling\<close>

text \<open>
  Key values (\<open>Gdk.KEY_*\<close>) and modifier masks (\<open>Gdk.ModifierType\<close>, a flags value of
  32 bits) of the toolkit.
\<close>

type_synonym keyval = nat
type_synonym modifiers = "32 word"

definition KEY_space :: keyval where "KEY_space = 0x20"
definition KEY_Tab :: keyval where "KEY_Tab = 0xff09"
definition KEY_KP_Tab :: keyval where "KEY_KP_Tab = 0xff89"
definition KEY_ISO_Left_Tab :: keyval where "KEY_ISO_Left_Tab = 0xfe20"
definition KEY_Escape :: keyval where "KEY_Escape = 0xff1b"
definition KEY_Return :: keyval where "KEY_Return = 0xff0d"
definition KEY_Shift_L :: keyval where "KEY_Shift_L = 0xffe1"
definition KEY_Shift_R :: keyval where "KEY_Shift_R = 0xffe2"
definition KEY_Control_L :: keyval where "KEY_Control_L = 0xffe3"
definition KEY_Control_R :: keyval where "KEY_Control_R = 0xffe4"

definition SHIFT_MASK :: modifiers where "SHIFT_MASK = 1"
definition LOCK_MASK :: modifiers where "LOCK_MASK = 2"
definition CONTROL_MASK :: modifiers where "CONTROL_MASK = 4"

text \<open>The Control modifier is held: its bit is set in the modifier state.\<close>

definition control_held :: "modifiers \<Rightarrow> bool" where
  "control_held state \<longleftrightarrow> state AND CONTROL_MASK \<noteq> 0"

text \<open>
  A handler of \<open>key-pressed\<close> returns whether it has consumed the key, together with the
  state it leaves.
\<close>

definition on_key_pressed :: "keyval \<Rightarrow> modifiers \<Rightarrow> launcher \<Rightarrow> bool \<times> launcher" where
  "on_key_pressed keyval state st =
     (if keyval = KEY_Escape then (True, quit st) else (False, st))"

text \<open>The keys that \<open>on_scroller_key_pressed\<close> leaves to the toolkit.\<close>

definition exempt_keys :: "keyval list" where
  "exempt_keys =
     [KEY_Tab, KEY_KP_Tab, KEY_ISO_Left_Tab, KEY_Escape, KEY_Return,
      KEY_Shift_L, KEY_Shift_R, KEY_Control_L, KEY_Control_R]"

text \<open>\<open>chr(i)\<close>: the one-character string, \<open>ValueError\<close> outside \<open>range(0x110000)\<close>.\<close>

definition chr :: "nat \<Rightarrow> error + pystr" where
  "chr i = (if i < 0x110000 then Inr [i] else Inl ValueError)"

text \<open>
  \<open>on_scroller_key_pressed\<close>.  The table \<open>Gdk.keyval_to_unicode\<close> of the toolkit is the
  parameter \<open>keyval_to_unicode\<close>; it gives 0 for a key without a character.
\<close>

definition on_scroller_key_pressed ::
    "(keyval \<Rightarrow> nat) \<Rightarrow> keyval \<Rightarrow> modifiers \<Rightarrow> launcher \<Rightarrow> error + bool \<times> launcher" where
  "on_scroller_key_pressed keyval_to_unicode keyval state st =
     (if keyval \<in> set exempt_keys then Inr (False, st)
      else let codepoint = keyval_to_unicode keyval
           in (case (if codepoint \<noteq> 0 then chr codepoint else Inr []) of
                 Inl e \<Rightarrow> Inl e
               | Inr char \<Rightarrow> Inr (True, focus_entry (append_char char st))))"

text \<open>
  \<open>on_btn_key_pressed\<close>; \<open>label\<close> is \<open>controller.get_widget().get_label()\<close>, the label of
  the button that has the key.
\<close>

definition on_btn_key_pressed ::
    "pystr \<Rightarrow> keyval \<Rightarrow> modifiers \<Rightarrow> launcher \<Rightarrow> bool \<times> launcher" where
  "on_btn_key_pressed label keyval state st =
     (if keyval = KEY_space then (True, focus_entry (append_char [32] st))
      else if keyval = KEY_Return then
        (if state = CONTROL_MASK then (True, focus_entry (set_cmd label st))
         else (True, quit (exec_one label st)))
      else (False, st))"

text \<open>\<open>on_btn_clicked\<close>; \<open>state\<close> is \<open>gesture.get_current_event_state()\<close>.\<close>

definition on_btn_clicked :: "modifiers \<Rightarrow> pystr \<Rightarrow> launcher \<Rightarrow> launcher" where
  "on_btn_clicked state cmd st =
     (if state = CONTROL_MASK then focus_entry (set_cmd cmd st)
      else quit (exec_one cmd st))"

subsection \<open>Routing of events\<close>

text \<open>
  \<open>build_ui\<close> puts the global key controller on the root box, the scroller's controller on
  the scroller inside the root box, and \<open>refresh_suggestions\<close> puts a key controller on
  every button inside the scroller.  A key press goes to the widget with the focus and
  from there to each enclosing widget, until a handler consumes it.  So a key on a button
  meets \<open>on_btn_key_pressed\<close>, \<open>on_scroller_key_pressed\<close>, \<open>on_key_pressed\<close> in this order,
  and a key on the entry, or on an index of the suggestion box where no button is, meets
  \<open>on_key_pressed\<close> only.  An exception in a handler is the result \<open>Inl\<close>.

  \<open>key_pressed\<close> runs the handlers of this program.  What the entry widget itself does
  with a key reaches the program as a signal: a change of its text as \<open>changed\<close>
  (\<open>on_entry_changed\<close>), the Return key as \<open>activate\<close> (\<open>on_activate_entry\<close>).
\<close>

definition key_pressed ::
    "(keyval \<Rightarrow> nat) \<Rightarrow> keyval \<Rightarrow> modifiers \<Rightarrow> launcher \<Rightarrow> error + launcher" where
  "key_pressed keyval_to_unicode keyval state st =
     (case focus st of
        Entry \<Rightarrow> Inr (snd (on_key_pressed keyval state st))
      | SuggestionItem i \<Rightarrow>
          if i < length (suggestion_box st) then
            (case on_btn_key_pressed (suggestion_box st ! i) keyval state st of
               (True, st1) \<Rightarrow> Inr st1
             | (False, st1) \<Rightarrow>
                 (case on_scroller_key_pressed keyval_to_unicode keyval state st1 of
                    Inl e \<Rightarrow> Inl e
                  | Inr (True, st2) \<Rightarrow> Inr st2
                  | Inr (False, st2) \<Rightarrow> Inr (snd (on_key_pressed keyval state st2))))
          else Inr (snd (on_key_pressed keyval state st)))"

text \<open>A pointer press on the button at index \<open>i\<close>; where there is no button, nothing runs.\<close>

definition pointer_pressed :: "nat \<Rightarrow> modifiers \<Rightarrow> launcher \<Rightarrow> launcher" where
  "pointer_pressed i state st =
     (if i < length (suggestion_box st) then on_btn_clicked state (suggestion_box st ! i) st
      else st)"

section \<open>Sample inputs\<close>

text \<open>
  A search path of three entries, the second of which does not exist.  The two directories
  hold the executables \<open>ls\<close>, \<open>lsblk\<close> and \<open>cat\<close>, \<open>ls\<close> twice, and a file \<open>README\<close> that
  is not executable.
\<close>

definition scenario_env :: os_env where
  "scenario_env =
     \<lparr>PATH = Some (str ''/usr/bin:/opt/none:/bin''),
      is_dir = (\<lambda>p. Inr (p = str ''/usr/bin'' \<or> p = str ''/bin'')),
      iterdir = (\<lambda>p. if p = str ''/usr/bin'' then Inr [str ''lsblk'', str ''ls'', str ''README'']
                      else if p = str ''/bin'' then Inr [str ''ls'', str ''cat'']
                      else Inl OSError),
      is_file = (\<lambda>p f. Inr True),
      access_X_OK = (\<lambda>p f. f \<noteq> str ''README'')\<rparr>"

text \<open>
  A search path whose second directory exists but may not be listed by the user:
  \<open>iterdir\<close> raises \<open>PermissionError\<close> there.
\<close>

definition unreadable_env :: os_env where
  "unreadable_env =
     \<lparr>PATH = Some (str ''/usr/bin:/root/bin''),
      is_dir = (\<lambda>p. Inr True),
      iterdir = (\<lambda>p. if p = str ''/root/bin'' then Inl PermissionError else Inr [str ''ls'']),
      is_file = (\<lambda>p f. Inr True),
      access_X_OK = (\<lambda>p f. True)\<rparr>"

text \<open>
  A part of the toolkit's table from key values to code points: the printable keys of
  Latin-1 stand for themselves, the BackSpace key gives code point 8, every other key in
  this sample gives 0.  \<open>KEY_Left\<close> is the left arrow key.
\<close>

definition sample_keyval_to_unicode :: "keyval \<Rightarrow> nat" where
  "sample_keyval_to_unicode k =
     (if (0x20 \<le> k \<and> k \<le> 0x7e) \<or> (0xa0 \<le> k \<and> k \<le> 0xff) then k
      else if k = 0xff08 then 8 else 0)"

definition KEY_Left :: keyval where "KEY_Left = 0xff51"

text \<open>
  The launcher with the index of \<open>scenario_env\<close> after \<open>ls\<close> has been typed, with the
  focus on the second suggestion, \<open>lsblk\<close>.
\<close>

definition scenario_browsing :: launcher where
  "scenario_browsing =
     \<lparr>commands = [str ''ls'', str ''cat'', str ''lsblk''], entry_text = str ''ls'',
      entry_hexpand = False, scroller_visible = True,
      suggestion_box = [str ''ls'', str ''lsblk''], focus = SuggestionItem 1,
      spawned = [], quit_called = False\<rparr>"

text \<open>
  A launcher whose index holds an executable with a blank in its name, \<open>my prog\<close>, after
  \<open>my\<close> has been typed, with the focus on the suggestion.
\<close>

definition spaced_browsing :: launcher where
  "spaced_browsing =
     \<lparr>commands = [str ''my prog''], entry_text = str ''my'',
      entry_hexpand = False, scroller_visible = True,
      suggestion_box = [str ''my prog''], focus = SuggestionItem 0,
      spawned = [], quit_called = False\<rparr>"

text \<open>An entry that holds \<open>ls\<close> after a blank, and one that holds two blanks.\<close>

definition padded_entry :: launcher where
  "padded_entry = (build_ui [])\<lparr>entry_text := str '' ls''\<rparr>"

definition blank_entry :: launcher where
  "blank_entry = (build_ui [])\<lparr>entry_text := str ''  ''\<rparr>"

section \<open>The matcher finds exactly the ordered subsequences\<close>

lemma find_at_none: "find_at xs c i = -1 \<longleftrightarrow> c \<notin> set xs"
  by (induction xs arbitrary: i) auto

lemma find_at_some:
  "c \<in> set xs \<Longrightarrow>
   \<exists>j<length xs. find_at xs c i = int (i + j) \<and> xs ! j = c \<and> (\<forall>k<j. xs ! k \<noteq> c)"
proof (induction xs arbitrary: i)
  case Nil
  then show ?case by simp
next
  case (Cons x xs)
  show ?case
  proof (cases "x = c")
    case True
    then show ?thesis by (intro exI[of _ 0]) simp
  next
    case False
    with Cons.prems have "c \<in> set xs" by simp
    from Cons.IH[OF this, of "Suc i"] obtain j where j: "j < length xs"
      "find_at xs c (Suc i) = int (Suc i + j)" "xs ! j = c" "\<forall>k<j. xs ! k \<noteq> c" by blast
    show ?thesis
    proof (intro exI[of _ "Suc j"] conjI allI impI)
      fix k assume "k < Suc j"
      then show "(x # xs) ! k \<noteq> c" using False j(4) by (cases k) auto
    qed (use False j in auto)
  qed
qed

lemma str_find_none:
  "str_find full c (int s) = -1 \<longleftrightarrow> (\<forall>j. s \<le> j \<and> j < length full \<longrightarrow> full ! j \<noteq> c)"
proof (cases "s \<le> length full")
  case True
  have "c \<notin> set (drop s full) \<longleftrightarrow> (\<forall>j. s \<le> j \<and> j < length full \<longrightarrow> full ! j \<noteq> c)"
  proof
    assume a: "c \<notin> set (drop s full)"
    show "\<forall>j. s \<le> j \<and> j < length full \<longrightarrow> full ! j \<noteq> c"
    proof (intro allI impI)
      fix j assume j: "s \<le> j \<and> j < length full"
      then have "drop s full ! (j - s) = full ! j" by simp
      moreover have "j - s < length (drop s full)" using j by auto
      ultimately show "full ! j \<noteq> c" using a by (metis nth_mem)
    qed
  next
    assume a: "\<forall>j. s \<le> j \<and> j < length full \<longrightarrow> full ! j \<noteq> c"
    show "c \<notin> set (drop s full)"
    proof
      assume "c \<in> set (drop s full)"
      then obtain k where "k < length (drop s full)" "drop s full ! k = c"
        by (auto simp: in_set_conv_nth)
      then have "s + k < length full" "full ! (s + k) = c" by auto
      with a show False by (metis le_add1)
    qed
  qed
  with True show ?thesis by (simp add: str_find_def find_at_none)
next
  case False
  then show ?thesis by (simp add: str_find_def)
qed

lemma str_find_some:
  assumes "str_find full c (int s) \<noteq> -1"
  shows "\<exists>r. str_find full c (int s) = int r \<and> s \<le> r \<and> r < length full \<and> full ! r = c \<and>
             (\<forall>j. s \<le> j \<and> j < r \<longrightarrow> full ! j \<noteq> c)"
proof -
  from assms have le: "s \<le> length full" by (auto simp: str_find_def Let_def split: if_splits)
  with assms have ne: "find_at (drop s full) c s \<noteq> -1" and
    eq: "str_find full c (int s) = find_at (drop s full) c s"
    by (auto simp: str_find_def)
  then have "c \<in> set (drop s full)" by (simp add: find_at_none)
  from find_at_some[OF this, of s] obtain j where j: "j < length (drop s full)"
    "find_at (drop s full) c s = int (s + j)" "drop s full ! j = c"
    "\<forall>k<j. drop s full ! k \<noteq> c" by blast
  show ?thesis
  proof (intro exI[of _ "s + j"] conjI allI impI)
    fix i assume i: "s \<le> i \<and> i < s + j"
    then have "i - s < j" by arith
    with j(4) have "drop s full ! (i - s) \<noteq> c" by blast
    moreover have "drop s full ! (i - s) = full ! i" using i j(1) by simp
    ultimately show "full ! i \<noteq> c" by simp
  qed (use j eq le in auto)
qed

lemma subseq_loop_iff:
  "subseq_loop cs full (int s - 1) \<longleftrightarrow> (\<exists>ps. occurs_at cs full ps \<and> (\<forall>p\<in>set ps. s \<le> p))"
proof (induction cs arbitrary: s)
  case Nil
  show ?case by (simp add: occurs_at_def)
next
  case (Cons c cs)
  show ?case
  proof (cases "str_find full c (int s) = -1")
    case True
    then have none: "\<forall>j. s \<le> j \<and> j < length full \<longrightarrow> full ! j \<noteq> c"
      by (simp add: str_find_none)
    have "\<not> (\<exists>ps. occurs_at (c # cs) full ps \<and> (\<forall>p\<in>set ps. s \<le> p))"
    proof
      assume "\<exists>ps. occurs_at (c # cs) full ps \<and> (\<forall>p\<in>set ps. s \<le> p)"
      then obtain ps where ps: "occurs_at (c # cs) full ps" "\<forall>p\<in>set ps. s \<le> p" by blast
      then obtain p ps' where pp: "ps = p # ps'" by (cases ps) (auto simp: occurs_at_def)
      with ps have "s \<le> p" "p < length full" "full ! p = c" by (auto simp: occurs_at_def)
      with none show False by blast
    qed
    with True show ?thesis by simp
  next
    case False
    from str_find_some[OF this] obtain r where r: "str_find full c (int s) = int r" "s \<le> r"
      "r < length full" "full ! r = c" "\<forall>j. s \<le> j \<and> j < r \<longrightarrow> full ! j \<noteq> c" by blast
    have step: "subseq_loop (c # cs) full (int s - 1) = subseq_loop cs full (int (Suc r) - 1)"
      using r(1) by simp
    have "(\<exists>ps. occurs_at cs full ps \<and> (\<forall>p\<in>set ps. Suc r \<le> p)) \<longleftrightarrow>
          (\<exists>ps. occurs_at (c # cs) full ps \<and> (\<forall>p\<in>set ps. s \<le> p))" (is "?L \<longleftrightarrow> ?R")
    proof
      assume ?L
      then obtain ps where ps: "occurs_at cs full ps" "\<forall>p\<in>set ps. Suc r \<le> p" by blast
      have "occurs_at (c # cs) full (r # ps)"
        using ps r by (auto simp: occurs_at_def)
      moreover have "\<forall>p\<in>set (r # ps). s \<le> p" using ps(2) r(2) by auto
      ultimately show ?R by blast
    next
      assume ?R
      then obtain qs where qs: "occurs_at (c # cs) full qs" "\<forall>p\<in>set qs. s \<le> p" by blast
      then obtain p ps where pp: "qs = p # ps" by (cases qs) (auto simp: occurs_at_def)
      with qs have p: "s \<le> p" "p < length full" "full ! p = c" "\<forall>q\<in>set ps. p < q"
        and rest: "occurs_at cs full ps"
        by (auto simp: occurs_at_def)
      have "r \<le> p"
      proof (rule ccontr)
        assume "\<not> r \<le> p"
        then have "s \<le> p \<and> p < r" using p(1) by simp
        with r(5) p(3) show False by blast
      qed
      with p(4) have "\<forall>q\<in>set ps. Suc r \<le> q" by auto
      with rest show ?L by blast
    qed
    with step Cons.IH[of "Suc r"] show ?thesis by simp
  qed
qed

lemma subseqmatch_iff:
  "subseqmatch q c \<longleftrightarrow> q \<noteq> [] \<and> (\<exists>ps. occurs_at q c ps)"
  using subseq_loop_iff[of q c 0] by (auto simp: subseqmatch_def)

lemma subseqmatch_Nil: "\<not> subseqmatch [] c"
  by (simp add: subseqmatch_def)

text \<open>
  Claim C1.  For a non-empty query \<open>q\<close> and any candidate \<open>c\<close>, \<open>subseqmatch q c\<close> is true
  exactly when the characters of \<open>q\<close> occur in \<open>c\<close> in order, at strictly increasing
  positions and with equal characters; and the empty query matches no candidate, the
  empty one included (\<open>c\<close> is any string).
\<close>

theorem subseqmatch_positions:
  "(q \<noteq> [] \<longrightarrow> subseqmatch q c = (\<exists>ps. occurs_at q c ps)) \<and> \<not> subseqmatch [] c"
  by (simp add: subseqmatch_iff subseqmatch_Nil)

theorem subseqmatch_positions_witness:
  "str ''ls'' \<noteq> [] \<and> occurs_at (str ''ls'') (str ''lsblk'') [0, 1] \<and>
   subseqmatch (str ''ls'') (str ''lsblk'') \<and> \<not> subseqmatch [] (str ''lsblk'')"
proof -
  have ne: "str ''ls'' \<noteq> []" by (simp add: str_def)
  have occ: "occurs_at (str ''ls'') (str ''lsblk'') [0, 1]"
    by (simp add: occurs_at_def str_def)
  from subseqmatch_positions[of "str ''ls''" "str ''lsblk''"] ne occ show ?thesis by blast
qed


text \<open>
  The same in the library's terms: for a non-empty query the matcher decides the
  subsequence relation \<open>subseq\<close> on lists.
\<close>

lemma subseq_skip_prefix:
  "c \<notin> set us \<Longrightarrow> subseq (c # cs) (us @ ys) \<longleftrightarrow> subseq (c # cs) ys"
  by (induction us) auto


lemma subseq_loop_drop:
  "s \<le> length full \<Longrightarrow> subseq_loop cs full (int s - 1) \<longleftrightarrow> subseq cs (drop s full)"
proof (induction cs arbitrary: s)
  case Nil
  show ?case by simp
next
  case (Cons c cs)
  show ?case
  proof (cases "str_find full c (int s) = -1")
    case True
    then have "\<forall>j. s \<le> j \<and> j < length full \<longrightarrow> full ! j \<noteq> c"
      by (simp add: str_find_none)
    then have "c \<notin> set (drop s full)"
      by (auto simp: in_set_conv_nth)
    then have "\<not> subseq (c # cs) (drop s full)"
      using subseq_skip_prefix[of c "drop s full" cs "[]"] by simp
    with True show ?thesis by simp
  next
    case False
    from str_find_some[OF this] obtain r where r: "str_find full c (int s) = int r" "s \<le> r"
      "r < length full" "full ! r = c" "\<forall>j. s \<le> j \<and> j < r \<longrightarrow> full ! j \<noteq> c" by blast
    have step: "subseq_loop (c # cs) full (int s - 1) = subseq_loop cs full (int (Suc r) - 1)"
      using r(1) by simp
    have split: "drop s full = take (r - s) (drop s full) @ c # drop (Suc r) full"
      using r(2,3,4) by (metis Cons_nth_drop_Suc add_diff_inverse_nat append_take_drop_id drop_drop leD add.commute)
    have "c \<notin> set (take (r - s) (drop s full))"
      using r(5) by (auto simp: in_set_conv_nth)
    then have "subseq (c # cs) (drop s full) \<longleftrightarrow> subseq (c # cs) (c # drop (Suc r) full)"
      using subseq_skip_prefix split by metis
    also have "\<dots> \<longleftrightarrow> subseq cs (drop (Suc r) full)" by simp
    finally show ?thesis using step Cons.IH[of "Suc r"] r(3) by simp
  qed
qed

lemma subseqmatch_subseq: "subseqmatch q c \<longleftrightarrow> q \<noteq> [] \<and> subseq q c"
  using subseq_loop_drop[of 0 c q] by (simp add: subseqmatch_def)

section \<open>The command index is duplicate-free, sorted and determined by the executables\<close>

lemma scan_entries_Inr:
  "scan_entries env p fs S = Inr T \<Longrightarrow>
   T = S \<union> {f \<in> set fs. is_file env p f = Inr True \<and> access_X_OK env p f}"
proof (induction fs arbitrary: S)
  case Nil
  then show ?case by simp
next
  case (Cons f fs)
  from Cons.prems obtain regular where r: "is_file env p f = Inr regular"
    and rest: "scan_entries env p fs
        (if regular \<and> access_X_OK env p f then insert f S else S) = Inr T"
    by (auto split: sum.splits)
  from Cons.IH[OF rest] r show ?case by (auto split: if_splits)
qed

lemma scan_entries_completes_iff:
  "(\<exists>T. scan_entries env p fs S = Inr T) \<longleftrightarrow> list_all (\<lambda>f. \<not> isl (is_file env p f)) fs"
  by (induction fs arbitrary: S) (auto split: sum.splits)

lemma scan_entries_Inl:
  "scan_entries env p fs S = Inl e \<Longrightarrow> \<exists>f\<in>set fs. is_file env p f = Inl e"
  by (induction fs arbitrary: S) (auto split: sum.splits)

lemma scan_dirs_Inr:
  "scan_dirs env ps S = Inr T \<Longrightarrow>
   T = S \<union> {f. \<exists>p fs. p \<in> set ps \<and> is_dir env p = Inr True \<and> iterdir env p = Inr fs \<and>
                 f \<in> set fs \<and> is_file env p f = Inr True \<and> access_X_OK env p f}"
proof (induction ps arbitrary: S)
  case Nil
  then show ?case by simp
next
  case (Cons p ps)
  from Cons.prems obtain dir where dir: "is_dir env p = Inr dir"
    by (auto split: sum.splits)
  show ?case
  proof (cases dir)
    case False
    with Cons.prems dir have "scan_dirs env ps S = Inr T" by simp
    from Cons.IH[OF this] False dir show ?thesis by auto
  next
    case True
    with Cons.prems dir obtain fs S' where fs: "iterdir env p = Inr fs"
      and inner: "scan_entries env p fs S = Inr S'"
      and rest: "scan_dirs env ps S' = Inr T"
      by (auto split: sum.splits)
    from Cons.IH[OF rest] scan_entries_Inr[OF inner] True dir fs show ?thesis
      by auto
  qed
qed

lemma scan_dirs_finite:
  "finite S \<Longrightarrow> scan_dirs env ps S = Inr T \<Longrightarrow> finite T"
proof (induction ps arbitrary: S)
  case Nil
  then show ?case by simp
next
  case (Cons p ps)
  from Cons.prems obtain dir where dir: "is_dir env p = Inr dir"
    by (auto split: sum.splits)
  show ?case
  proof (cases dir)
    case False
    with Cons dir show ?thesis by simp
  next
    case True
    with Cons.prems dir obtain fs S' where inner: "scan_entries env p fs S = Inr S'"
      and rest: "scan_dirs env ps S' = Inr T"
      by (auto split: sum.splits)
    have "finite S'"
      using Cons.prems(1) scan_entries_Inr[OF inner] by simp
    from Cons.IH[OF this rest] show ?thesis .
  qed
qed

lemma scan_dirs_Inl:
  "scan_dirs env ps S = Inl e \<Longrightarrow> \<exists>p\<in>set ps. raised_at env p e"
proof (induction ps arbitrary: S)
  case Nil
  then show ?case by simp
next
  case (Cons p ps)
  show ?case
  proof (cases "raised_at env p e")
    case True
    then show ?thesis by simp
  next
    case False
    with Cons.prems have "\<exists>S'. scan_dirs env ps S' = Inl e"
      by (auto simp: raised_at_def split: sum.splits if_splits dest: scan_entries_Inl)
    with Cons.IH show ?thesis by auto
  qed
qed

lemma scan_dirs_completes_iff:
  "(\<exists>T. scan_dirs env ps S = Inr T) \<longleftrightarrow> list_all (dir_ok env) ps"
proof (induction ps arbitrary: S)
  case Nil
  show ?case by simp
next
  case (Cons p ps)
  show ?case
  proof (cases "is_dir env p")
    case (Inl e)
    then show ?thesis by (simp add: dir_ok_def)
  next
    case (Inr dir)
    show ?thesis
    proof (cases dir)
      case False
      with Inr Cons.IH[of S] show ?thesis by (simp add: dir_ok_def)
    next
      case True
      show ?thesis
      proof (cases "iterdir env p")
        case (Inl e)
        with Inr True show ?thesis by (simp add: dir_ok_def)
      next
        case fs: (Inr fs)
        show ?thesis
        proof (cases "scan_entries env p fs S")
          case (Inl e)
          then have "\<not> list_all (\<lambda>f. \<not> isl (is_file env p f)) fs"
            using scan_entries_completes_iff[of env p fs S] by auto
          with Inl Inr True fs show ?thesis by (simp add: dir_ok_def)
        next
          case S': (Inr S')
          then have "list_all (\<lambda>f. \<not> isl (is_file env p f)) fs"
            using scan_entries_completes_iff[of env p fs S] by auto
          with S' Inr True fs Cons.IH[of S'] show ?thesis by (simp add: dir_ok_def)
        qed
      qed
    qed
  qed
qed

lemma inj_command_key: "inj command_key"
  by (simp add: inj_def command_key_def)

lemma command_key_less: "command_key a < command_key b \<longleftrightarrow> index_less a b"
  by (auto simp: command_key_def index_less_def less_prod_def')

lemma sort_key_enumeration:
  assumes "inj k" "distinct xs" "distinct ys" "set xs = set ys"
  shows "sort_key k xs = sort_key k ys"
proof -
  have inj: "\<And>A. inj_on k A" using assms(1) by (rule inj_on_subset) simp
  have "map k (sort_key k xs) = map k (sort_key k ys)"
  proof (rule sorted_distinct_set_unique)
    show "sorted (map k (sort_key k xs))" "sorted (map k (sort_key k ys))"
      by (rule sorted_sort_key)+
    show "distinct (map k (sort_key k xs))" using assms(2) inj by (simp add: distinct_map)
    show "distinct (map k (sort_key k ys))" using assms(3) inj by (simp add: distinct_map)
    show "set (map k (sort_key k xs)) = set (map k (sort_key k ys))" using assms(4) by simp
  qed
  with assms(1) show ?thesis by simp
qed

lemma py_sorted_props:
  assumes "finite S"
  shows "set (py_sorted command_key S) = S" "distinct (py_sorted command_key S)"
    "sorted_wrt index_less (py_sorted command_key S)"
proof -
  let ?idx = "py_sorted command_key S"
  show s: "set ?idx = S" using assms by (simp add: py_sorted_def)
  show d: "distinct ?idx" by (simp add: py_sorted_def)
  have "sorted (map command_key ?idx)" unfolding py_sorted_def by (rule sorted_sort_key)
  moreover have "distinct (map command_key ?idx)"
    using d inj_command_key by (simp add: distinct_map inj_on_def inj_def)
  ultimately have "sorted_wrt (<) (map command_key ?idx)" by (simp add: strict_sorted_iff)
  then show "sorted_wrt index_less ?idx"
    by (simp add: sorted_wrt_map command_key_less)
qed

lemma get_path_commands_Inr:
  assumes "get_path_commands env = Inr idx"
  shows "finite (executables env)" "idx = py_sorted command_key (executables env)"
proof -
  from assms obtain T where T: "scan_dirs env (path_entries env) {} = Inr T"
    and idx: "idx = py_sorted command_key T"
    by (auto simp: get_path_commands_def split: sum.splits)
  from scan_dirs_Inr[OF T] have TE: "T = executables env" by (simp add: executables_def)
  from scan_dirs_finite[OF _ T] TE show "finite (executables env)" by simp
  from idx TE show "idx = py_sorted command_key (executables env)" by simp
qed

text \<open>
  Claim C3.  When \<open>get_path_commands\<close> returns an index, the index has no duplicate
  names, it is in strictly ascending order by name length and then by name, and it holds
  exactly the executables of the search path.  It is the same list whatever the order in
  which the set of names is enumerated before the sort, and any build whose search path
  holds the same executables returns the same index.
\<close>

theorem get_path_commands_sorted_unique:
  assumes "get_path_commands env = Inr idx"
  shows "distinct idx \<and> sorted_wrt index_less idx \<and> set idx = executables env \<and>
         (\<forall>xs. distinct xs \<and> set xs = executables env \<longrightarrow> sort_key command_key xs = idx) \<and>
         (\<forall>env' idx'. get_path_commands env' = Inr idx' \<and> executables env' = executables env
            \<longrightarrow> idx' = idx)"
proof -
  note g = get_path_commands_Inr[OF assms]
  note p = py_sorted_props[OF g(1)]
  have enum: "sort_key command_key xs = idx" if "distinct xs" "set xs = executables env" for xs
  proof -
    have "sort_key command_key xs = sort_key command_key (sorted_list_of_set (executables env))"
      using that g(1) by (intro sort_key_enumeration inj_command_key) simp_all
    then show ?thesis by (simp add: g(2) py_sorted_def)
  qed
  have same: "idx' = idx"
    if "get_path_commands env' = Inr idx'" "executables env' = executables env" for env' idx'
    using get_path_commands_Inr(2)[OF that(1)] that(2) g(2) by simp
  from p g(2) enum same show ?thesis by blast
qed

theorem get_path_commands_sorted_unique_witness:
  "get_path_commands scenario_env = Inr [str ''ls'', str ''cat'', str ''lsblk''] \<and>
   distinct [str ''ls'', str ''cat'', str ''lsblk''] \<and>
   sorted_wrt index_less [str ''ls'', str ''cat'', str ''lsblk''] \<and>
   set [str ''ls'', str ''cat'', str ''lsblk''] = executables scenario_env \<and>
   sort_key command_key [str ''lsblk'', str ''ls'', str ''cat''] =
     [str ''ls'', str ''cat'', str ''lsblk'']"
proof -
  have e: "get_path_commands scenario_env = Inr [str ''ls'', str ''cat'', str ''lsblk'']"
    by code_simp
  note t = get_path_commands_sorted_unique[OF e]
  have d: "distinct [str ''lsblk'', str ''ls'', str ''cat'']" by (simp add: str_def)
  have "set [str ''lsblk'', str ''ls'', str ''cat''] = set [str ''ls'', str ''cat'', str ''lsblk'']"
    by auto
  with t have "set [str ''lsblk'', str ''ls'', str ''cat''] = executables scenario_env" by simp
  with t d have "sort_key command_key [str ''lsblk'', str ''ls'', str ''cat''] =
      [str ''ls'', str ''cat'', str ''lsblk'']" by blast
  with e t show ?thesis by blast
qed

text \<open>
  Claim C4, as stated, fails: a directory of the search path that exists but cannot be
  listed makes \<open>iterdir\<close> raise, nothing catches the exception, and the build ends with
  it instead of an index.  Here the second directory raises \<open>PermissionError\<close>, and the
  entries of the first, readable directory are lost with the build.
\<close>

theorem get_path_commands_aborts:
  "is_dir unreadable_env (str ''/root/bin'') = Inr True \<and>
   iterdir unreadable_env (str ''/root/bin'') = Inl PermissionError \<and>
   get_path_commands unreadable_env = Inl PermissionError"
  by (simp add: get_path_commands_def path_entries_def getenv_PATH_def unreadable_env_def
      str_def pathsep_def)

text \<open>
  Claim C4, amended.  Entries of the search path that are not existing directories are
  skipped, and no exception is caught.  The build completes, with exactly the executables
  of the existing directories, when no call of the scan raises; when one does, for example
  because an existing directory cannot be enumerated, the build ends with an exception,
  and the exception is one that a call of the scan for an entry of the search path raised.
\<close>

theorem get_path_commands_completes_iff:
  "(scan_ok env \<longrightarrow> (\<exists>idx. get_path_commands env = Inr idx \<and> set idx = executables env)) \<and>
   (\<not> scan_ok env \<longrightarrow> (\<exists>e. get_path_commands env = Inl e)) \<and>
   (\<forall>e. get_path_commands env = Inl e \<longrightarrow> (\<exists>p\<in>set (path_entries env). raised_at env p e))"
proof (intro conjI impI allI)
  assume "scan_ok env"
  then obtain T where T: "scan_dirs env (path_entries env) {} = Inr T"
    using scan_dirs_completes_iff[of env "path_entries env" "{}"] by (auto simp: scan_ok_def)
  then have g: "get_path_commands env = Inr (py_sorted command_key T)"
    by (simp add: get_path_commands_def)
  from get_path_commands_Inr[OF g] py_sorted_props(1) g
  show "\<exists>idx. get_path_commands env = Inr idx \<and> set idx = executables env" by auto
next
  assume "\<not> scan_ok env"
  then have "\<not> (\<exists>T. scan_dirs env (path_entries env) {} = Inr T)"
    using scan_dirs_completes_iff[of env "path_entries env" "{}"] by (simp add: scan_ok_def)
  then obtain e where "scan_dirs env (path_entries env) {} = Inl e"
    by (cases "scan_dirs env (path_entries env) {}") auto
  then show "\<exists>e. get_path_commands env = Inl e" by (simp add: get_path_commands_def)
next
  fix e assume "get_path_commands env = Inl e"
  then have "scan_dirs env (path_entries env) {} = Inl e"
    by (auto simp: get_path_commands_def split: sum.splits)
  then show "\<exists>p\<in>set (path_entries env). raised_at env p e"
    by (rule scan_dirs_Inl)
qed

theorem get_path_commands_completes_iff_witness:
  "scan_ok scenario_env \<and>
   is_dir scenario_env (str ''/opt/none'') = Inr False \<and>
   set [str ''ls'', str ''cat'', str ''lsblk''] = executables scenario_env \<and>
   \<not> scan_ok unreadable_env \<and>
   (\<exists>p\<in>set (path_entries unreadable_env). raised_at unreadable_env p PermissionError)"
proof -
  have pe: "path_entries scenario_env = [str ''/usr/bin'', str ''/opt/none'', str ''/bin'']"
    by (simp add: path_entries_def getenv_PATH_def scenario_env_def str_def pathsep_def)
  have r: "scan_ok scenario_env"
    by (simp add: scan_ok_def pe) (simp add: dir_ok_def scenario_env_def str_def)
  have n: "is_dir scenario_env (str ''/opt/none'') = Inr False"
    by (simp add: scenario_env_def str_def)
  have e: "get_path_commands scenario_env = Inr [str ''ls'', str ''cat'', str ''lsblk'']"
    by code_simp
  have u: "\<not> scan_ok unreadable_env"
    by (simp add: scan_ok_def dir_ok_def path_entries_def getenv_PATH_def unreadable_env_def
        str_def pathsep_def)
  have a: "get_path_commands unreadable_env = Inl PermissionError"
    by code_simp
  from get_path_commands_completes_iff[of scenario_env] r e
  have "set [str ''ls'', str ''cat'', str ''lsblk''] = executables scenario_env" by auto
  moreover from get_path_commands_completes_iff[of unreadable_env] a
  have "\<exists>p\<in>set (path_entries unreadable_env). raised_at unreadable_env p PermissionError"
    by blast
  ultimately show ?thesis using r n u by blast
qed

section \<open>The suggestion list is the filtered index, cut at 20\<close>

lemma fold_append_button:
  "fold append_button cs st = st\<lparr>suggestion_box := suggestion_box st @ cs\<rparr>"
  by (induction cs arbitrary: st) (simp_all add: append_button_def)

lemma refresh_suggestions_eq:
  "refresh_suggestions text st =
     st\<lparr>entry_hexpand := (filter (subseqmatch text) (commands st) = []),
        scroller_visible := (filter (subseqmatch text) (commands st) \<noteq> []),
        suggestion_box := take 20 (filter (subseqmatch text) (commands st))\<rparr>"
  by (simp add: refresh_suggestions_def Let_def hide_suggestions_def show_suggestions_def
      fold_append_button)

text \<open>
  Claim C2.  For every query text and every index, the buttons that \<open>refresh_suggestions\<close>
  leaves in the suggestion box are the commands of the index that the matcher accepts for
  the text, in the order of the index, cut after the first 20; so there are at most 20 of
  them and they form a subsequence of the index.
\<close>

theorem refresh_suggestions_filter_take:
  "suggestion_box (refresh_suggestions text st) =
     take 20 (filter (subseqmatch text) (commands st)) \<and>
   length (suggestion_box (refresh_suggestions text st)) \<le> 20 \<and>
   subseq (suggestion_box (refresh_suggestions text st)) (commands st)"
proof -
  have "subseq (take 20 (filter (subseqmatch text) (commands st))) (filter (subseqmatch text) (commands st))"
    by (rule prefix_imp_subseq) (rule take_is_prefix)
  then have "subseq (take 20 (filter (subseqmatch text) (commands st))) (commands st)"
    by (rule subseq_order.order_trans) (rule subseq_filter_left)
  then show ?thesis by (simp add: refresh_suggestions_eq)
qed

text \<open>
  Claim C5.  After \<open>refresh_suggestions\<close> the scroller is visible exactly when the
  suggestion box is not empty, and the entry expands horizontally exactly when the scroller
  is not visible; for the empty text the box is empty and the scroller hidden.
\<close>

theorem refresh_suggestions_visibility:
  "scroller_visible (refresh_suggestions text st) =
     (suggestion_box (refresh_suggestions text st) \<noteq> []) \<and>
   entry_hexpand (refresh_suggestions text st) =
     (\<not> scroller_visible (refresh_suggestions text st)) \<and>
   suggestion_box (refresh_suggestions [] st) = [] \<and>
   \<not> scroller_visible (refresh_suggestions [] st)"
  by (simp add: refresh_suggestions_eq subseqmatch_Nil)

text \<open>
  The suggestions depend on the text and the index only: a refresh undoes an earlier one.
\<close>

lemma refresh_suggestions_again:
  "refresh_suggestions t (refresh_suggestions u st) = refresh_suggestions t st"
  by (simp add: refresh_suggestions_eq)

lemma set_text_fields:
  "entry_text (set_text t st) = t" "focus (set_text t st) = focus st"
  "spawned (set_text t st) = spawned st" "quit_called (set_text t st) = quit_called st"
  "commands (set_text t st) = commands st"
  by (simp_all add: set_text_def on_entry_changed_def refresh_suggestions_eq)

lemma scenario_browsing_refresh:
  "refresh_suggestions (str ''ls'')
     ((build_ui [str ''ls'', str ''cat'', str ''lsblk''])
        \<lparr>entry_text := str ''ls'', focus := SuggestionItem 1\<rparr>) = scenario_browsing"
  by (simp add: refresh_suggestions_eq build_ui_def scenario_browsing_def subseqmatch_def
      str_def str_find_def)

section \<open>The input router\<close>

lemma KEY_Escape_exempt: "KEY_Escape \<in> set exempt_keys"
  by (simp add: exempt_keys_def)

lemma on_btn_key_pressed_Escape: "on_btn_key_pressed label KEY_Escape state st = (False, st)"
  by (simp add: on_btn_key_pressed_def KEY_Escape_def KEY_space_def KEY_Return_def)

text \<open>
  Claim C9.  Whatever the entry text, the suggestions and the focus, the Escape key ends
  in a call of \<open>quit\<close>, which is the state \<open>Terminated\<close>: neither the handler of a button
  nor the handler of the scroller consumes the key or changes the state, and the global
  handler quits.
\<close>

theorem escape_terminates:
  "key_pressed k2u KEY_Escape state st = Inr (quit st) \<and>
   router_state (quit st) = Terminated \<and>
   on_scroller_key_pressed k2u KEY_Escape state st = Inr (False, st) \<and>
   on_btn_key_pressed label KEY_Escape state st = (False, st)"
  by (simp add: key_pressed_def on_btn_key_pressed_Escape on_scroller_key_pressed_def
      KEY_Escape_exempt on_key_pressed_def router_state_def quit_def split: focus.split)

lemma not_control_held: "\<not> control_held state \<Longrightarrow> state \<noteq> CONTROL_MASK"
  by (auto simp: control_held_def CONTROL_MASK_def)

lemma exec_quit_eq:
  "quit (exec_one cmd st) = st\<lparr>spawned := spawned st @ [shlex_quote cmd], quit_called := True\<rparr>"
  by (simp add: quit_def exec_one_def Popen_def)

text \<open>
  The shell reads the quoted form of any name as one word, which is the name: quoting
  leaves no blank of the name to split at and no character for the shell to interpret.
\<close>

lemma shlex_safe_plain:
  "shlex_safe c \<Longrightarrow> c \<noteq> 39 \<and> c \<noteq> 34 \<and> \<not> sh_blank c \<and> \<not> sh_special c"
  by (auto simp: shlex_safe_def sh_blank_def sh_special_def str_def)

lemma sh_scan_safe:
  "list_all shlex_safe s \<Longrightarrow> s \<noteq> [] \<Longrightarrow> sh_scan Unquoted w s = Some [begun w @ s]"
proof (induction s arbitrary: w)
  case Nil
  then show ?case by simp
next
  case (Cons c s)
  from Cons.prems have c: "c \<noteq> 39" "c \<noteq> 34" "\<not> sh_blank c" "\<not> sh_special c"
    using shlex_safe_plain[of c] by simp_all
  show ?case
  proof (cases "s = []")
    case True
    with c show ?thesis by (simp add: begun_def)
  next
    case False
    with Cons.prems Cons.IH[of "Some (begun w @ [c])"] c show ?thesis
      by (simp add: begun_def)
  qed
qed

lemma sh_scan_replace_quote:
  "sh_scan Single (Some w) (replace_quote s @ 39 # rest) = sh_scan Unquoted (Some (w @ s)) rest"
proof (induction s arbitrary: w)
  case Nil
  show ?case by (simp add: replace_quote_def)
next
  case (Cons c s)
  show ?case
  proof (cases "c = 39")
    case True
    have "replace_quote (c # s) = [39, 34, 39, 34, 39] @ replace_quote s"
      using True by (simp add: replace_quote_def)
    then have "sh_scan Single (Some w) (replace_quote (c # s) @ 39 # rest) =
        sh_scan Single (Some (w @ [39])) (replace_quote s @ 39 # rest)"
      by (simp add: begun_def)
    with Cons.IH[of "w @ [39]"] True show ?thesis by simp
  next
    case False
    have "replace_quote (c # s) = c # replace_quote s"
      using False by (simp add: replace_quote_def)
    then have "sh_scan Single (Some w) (replace_quote (c # s) @ 39 # rest) =
        sh_scan Single (Some (w @ [c])) (replace_quote s @ 39 # rest)"
      using False by (simp add: begun_def)
    with Cons.IH[of "w @ [c]"] show ?thesis by simp
  qed
qed

lemma sh_words_shlex_quote: "sh_words (shlex_quote s) = Some [s]"
proof (cases "s = []")
  case True
  then show ?thesis by (simp add: sh_words_def shlex_quote_def begun_def)
next
  case False
  show ?thesis
  proof (cases "list_all shlex_safe s")
    case True
    with False show ?thesis by (simp add: sh_words_def shlex_quote_def sh_scan_safe begun_def)
  next
    case unsafe: False
    have "sh_scan Unquoted None (39 # replace_quote s @ [39]) = Some [s]"
      using sh_scan_replace_quote[of "[]" s "[]"] by (simp add: begun_def)
    with False unsafe show ?thesis by (simp add: sh_words_def shlex_quote_def)
  qed
qed

text \<open>
  Claim C7.  With the focus on a suggestion whose command is \<open>n\<close>, the Return key, and
  likewise a pointer press on that suggestion, without the Control modifier adds one launch
  to the launches so far, of the command line \<open>shlex.quote(n)\<close> made from the whole name,
  and calls \<open>quit\<close>; nothing else changes, nothing waits for the process, and the state is
  \<open>Terminated\<close>.  The shell reads that command line as a single word, the name \<open>n\<close>
  itself, whatever characters the name holds: the name is not split into arguments.
\<close>

theorem plain_return_launches:
  assumes "focus st = SuggestionItem i" and "i < length (suggestion_box st)"
    and "\<not> control_held state"
  shows "key_pressed k2u KEY_Return state st =
           Inr (st\<lparr>spawned := spawned st @ [shlex_quote (suggestion_box st ! i)],
                   quit_called := True\<rparr>) \<and>
         pointer_pressed i state st =
           st\<lparr>spawned := spawned st @ [shlex_quote (suggestion_box st ! i)],
              quit_called := True\<rparr> \<and>
         router_state (st\<lparr>spawned := spawned st @ [shlex_quote (suggestion_box st ! i)],
                         quit_called := True\<rparr>) = Terminated \<and>
         sh_words (shlex_quote (suggestion_box st ! i)) = Some [suggestion_box st ! i]"
proof -
  from assms(3) have ne: "state \<noteq> CONTROL_MASK" by (rule not_control_held)
  have "on_btn_key_pressed (suggestion_box st ! i) KEY_Return state st =
          (True, quit (exec_one (suggestion_box st ! i) st))"
    using ne by (simp add: on_btn_key_pressed_def KEY_Return_def KEY_space_def)
  then have k: "key_pressed k2u KEY_Return state st = Inr (quit (exec_one (suggestion_box st ! i) st))"
    using assms(1,2) by (simp add: key_pressed_def)
  have p: "pointer_pressed i state st = quit (exec_one (suggestion_box st ! i) st)"
    using assms(2) ne by (simp add: pointer_pressed_def on_btn_clicked_def)
  show ?thesis using k p by (simp add: exec_quit_eq router_state_def sh_words_shlex_quote)
qed

text \<open>
  The witness is the name \<open>my prog\<close>: the launch is \<open>'my prog'\<close> between single quotes
  (code point 39), one word for the shell, where the bare name would be two.
\<close>

theorem plain_return_launches_witness:
  "focus spaced_browsing = SuggestionItem 0 \<and> 0 < length (suggestion_box spaced_browsing) \<and>
   \<not> control_held SHIFT_MASK \<and>
   key_pressed sample_keyval_to_unicode KEY_Return SHIFT_MASK spaced_browsing =
     Inr (spaced_browsing\<lparr>spawned := [39 # str ''my prog'' @ [39]], quit_called := True\<rparr>) \<and>
   pointer_pressed 0 SHIFT_MASK spaced_browsing =
     spaced_browsing\<lparr>spawned := [39 # str ''my prog'' @ [39]], quit_called := True\<rparr> \<and>
   sh_words (39 # str ''my prog'' @ [39]) = Some [str ''my prog''] \<and>
   sh_words (str ''my prog'') = Some [str ''my'', str ''prog'']"
proof -
  have f: "focus spaced_browsing = SuggestionItem 0"
    and l: "0 < length (suggestion_box spaced_browsing)"
    by (simp_all add: spaced_browsing_def)
  have c: "\<not> control_held SHIFT_MASK"
    by (simp add: control_held_def SHIFT_MASK_def CONTROL_MASK_def)
  have q: "suggestion_box spaced_browsing ! 0 = str ''my prog''"
    by (simp add: spaced_browsing_def)
  have sq: "shlex_quote (str ''my prog'') = 39 # str ''my prog'' @ [39]"
    by (simp add: shlex_quote_def shlex_safe_def replace_quote_def str_def)
  have s: "spawned spaced_browsing = []" by (simp add: spaced_browsing_def)
  have bare: "sh_words (str ''my prog'') = Some [str ''my'', str ''prog'']"
    by (simp add: sh_words_def sh_blank_def sh_special_def begun_def str_def)
  note t = plain_return_launches[OF f l c, of sample_keyval_to_unicode, unfolded q sq s]
  from t f l c bare show ?thesis by simp
qed

text \<open>
  With the modifier state equal to \<open>CONTROL_MASK\<close>, the Control modifier alone, the Return
  key and the pointer press pick the suggestion: the entry holds the quoted name, the focus
  is on the entry, nothing is launched and \<open>quit\<close> is not called.
\<close>

lemma ctrl_only_return_picks:
  assumes "focus st = SuggestionItem i" and "i < length (suggestion_box st)"
  shows "\<exists>st'. key_pressed k2u KEY_Return CONTROL_MASK st = Inr st' \<and>
           pointer_pressed i CONTROL_MASK st = st' \<and>
           entry_text st' = shlex_quote (suggestion_box st ! i) \<and> focus st' = Entry \<and>
           spawned st' = spawned st \<and> quit_called st' = quit_called st"
  using assms
  by (simp add: key_pressed_def on_btn_key_pressed_def KEY_Return_def KEY_space_def
      pointer_pressed_def on_btn_clicked_def focus_entry_def set_cmd_def set_text_fields)

text \<open>
  Claim C6 does not hold of the code for every state with the Control modifier held.  The
  handlers compare the whole modifier state with \<open>CONTROL_MASK\<close>, so with Control held
  while Caps Lock is on (or with any second modifier) they take the branch of the plain
  Return: on the suggestion \<open>lsblk\<close> the command is launched and \<open>quit\<close> is called, and
  the entry text stays \<open>ls\<close>.
\<close>

theorem ctrl_lock_return_executes:
  "control_held (CONTROL_MASK OR LOCK_MASK) \<and>
   focus scenario_browsing = SuggestionItem 1 \<and>
   suggestion_box scenario_browsing ! 1 = str ''lsblk'' \<and>
   key_pressed sample_keyval_to_unicode KEY_Return (CONTROL_MASK OR LOCK_MASK) scenario_browsing =
     Inr (scenario_browsing\<lparr>spawned := [str ''lsblk''], quit_called := True\<rparr>) \<and>
   pointer_pressed 1 (CONTROL_MASK OR LOCK_MASK) scenario_browsing =
     scenario_browsing\<lparr>spawned := [str ''lsblk''], quit_called := True\<rparr>"
  by (simp add: control_held_def CONTROL_MASK_def LOCK_MASK_def scenario_browsing_def
      key_pressed_def on_btn_key_pressed_def KEY_Return_def KEY_space_def
      pointer_pressed_def on_btn_clicked_def exec_quit_eq shlex_quote_def shlex_safe_def str_def)

text \<open>
  Claim C8, as stated, fails where it says that the entry text is dispatched: the command
  line given to the shell is the trimmed text.  For the entry text \<open>ls\<close> after a blank the
  launch is \<open>ls\<close> without the blank.
\<close>

theorem on_activate_entry_not_raw:
  "str_strip (entry_text padded_entry) \<noteq> [] \<and>
   on_activate_entry padded_entry \<noteq> quit (Popen (entry_text padded_entry) padded_entry)"
  by (simp add: on_activate_entry_def Let_def quit_def Popen_def padded_entry_def build_ui_def
      str_strip_def py_isspace_def str_def)

text \<open>
  Claim C8, amended.  When the entry is activated and its text, trimmed, is not empty, the
  trimmed text is given to the shell as one command line, unsplit, \<open>quit\<close> is called and
  the state is \<open>Terminated\<close>; when the trimmed text is empty, the state of the launcher
  is unchanged, so nothing is launched and a launcher in \<open>Editing\<close> stays there.
\<close>

theorem on_activate_entry_trimmed:
  "(str_strip (entry_text st) \<noteq> [] \<longrightarrow>
      on_activate_entry st =
        st\<lparr>spawned := spawned st @ [str_strip (entry_text st)], quit_called := True\<rparr> \<and>
      router_state (on_activate_entry st) = Terminated) \<and>
   (str_strip (entry_text st) = [] \<longrightarrow>
      on_activate_entry st = st \<and>
      (focus st = Entry \<and> \<not> quit_called st \<longrightarrow> router_state (on_activate_entry st) = Editing))"
  by (simp add: on_activate_entry_def Let_def quit_def Popen_def router_state_def)

theorem on_activate_entry_trimmed_witness:
  "str_strip (entry_text padded_entry) \<noteq> [] \<and>
   on_activate_entry padded_entry = padded_entry\<lparr>spawned := [str ''ls''], quit_called := True\<rparr> \<and>
   router_state (on_activate_entry padded_entry) = Terminated \<and>
   str_strip (entry_text blank_entry) = [] \<and> focus blank_entry = Entry \<and>
   \<not> quit_called blank_entry \<and>
   on_activate_entry blank_entry = blank_entry \<and>
   router_state (on_activate_entry blank_entry) = Editing"
proof -
  have p: "str_strip (entry_text padded_entry) = str ''ls''"
    by (simp add: padded_entry_def str_strip_def py_isspace_def str_def)
  have pn: "str_strip (entry_text padded_entry) \<noteq> []"
    by (simp add: p) (simp add: str_def)
  have ps: "spawned padded_entry = []" by (simp add: padded_entry_def build_ui_def)
  have b: "str_strip (entry_text blank_entry) = []"
    by (simp add: blank_entry_def str_strip_def py_isspace_def str_def)
  have bf: "focus blank_entry = Entry" "\<not> quit_called blank_entry"
    by (simp_all add: blank_entry_def build_ui_def)
  note t = on_activate_entry_trimmed[of padded_entry, unfolded p ps append_Nil]
  have pn': "str ''ls'' \<noteq> []" by (simp add: str_def)
  from t pn'
  have "on_activate_entry padded_entry = padded_entry\<lparr>spawned := [str ''ls''], quit_called := True\<rparr>"
    "router_state (on_activate_entry padded_entry) = Terminated"
    by blast+
  moreover from on_activate_entry_trimmed[of blank_entry] b bf
  have "on_activate_entry blank_entry = blank_entry"
    "router_state (on_activate_entry blank_entry) = Editing"
    by blast+
  ultimately show ?thesis using pn b bf by blast
qed

text \<open>
  Claim C10.  A key that \<open>on_scroller_key_pressed\<close> does not leave to the toolkit and that
  has no character (code point 0) is consumed: the entry text stays as it is, the focus
  goes to the entry, nothing is launched and \<open>quit\<close> is not called.  With the focus on a
  suggestion this is what the key press does, the space key apart, which the button's own
  handler takes.  And \<open>append_char\<close> of a backspace on an empty entry text leaves the
  text empty.
\<close>

theorem unprintable_key_refocuses_entry:
  assumes "keyval \<notin> set exempt_keys" and "k2u keyval = 0"
  shows "(\<exists>st'. on_scroller_key_pressed k2u keyval state st = Inr (True, st') \<and>
            entry_text st' = entry_text st \<and> focus st' = Entry \<and>
            spawned st' = spawned st \<and> quit_called st' = quit_called st \<and>
            (focus st = SuggestionItem i \<and> i < length (suggestion_box st) \<and> keyval \<noteq> KEY_space
               \<longrightarrow> key_pressed k2u keyval state st = Inr st')) \<and>
         (entry_text st = [] \<longrightarrow> entry_text (append_char [8] st) = [])"
proof -
  let ?st' = "focus_entry (append_char [] st)"
  have s: "on_scroller_key_pressed k2u keyval state st = Inr (True, ?st')"
    using assms by (simp add: on_scroller_key_pressed_def)
  have f: "entry_text ?st' = entry_text st" "focus ?st' = Entry" "spawned ?st' = spawned st"
    "quit_called ?st' = quit_called st"
    by (simp_all add: focus_entry_def append_char_def set_text_fields)
  have nr: "keyval \<noteq> KEY_Return" using assms(1) by (auto simp: exempt_keys_def)
  have k: "key_pressed k2u keyval state st = Inr ?st'"
    if "focus st = SuggestionItem i" "i < length (suggestion_box st)" "keyval \<noteq> KEY_space"
    using that nr s by (simp add: key_pressed_def on_btn_key_pressed_def)
  have b: "entry_text (append_char [8] st) = []" if "entry_text st = []"
    using that by (simp add: append_char_def set_text_fields)
  from s f k b show ?thesis by blast
qed

theorem unprintable_key_refocuses_entry_witness:
  "KEY_Left \<notin> set exempt_keys \<and> sample_keyval_to_unicode KEY_Left = 0 \<and>
   focus scenario_browsing = SuggestionItem 1 \<and> 1 < length (suggestion_box scenario_browsing) \<and>
   KEY_Left \<noteq> KEY_space \<and>
   (\<exists>st'. on_scroller_key_pressed sample_keyval_to_unicode KEY_Left 0 scenario_browsing =
            Inr (True, st') \<and>
          key_pressed sample_keyval_to_unicode KEY_Left 0 scenario_browsing = Inr st' \<and>
          entry_text st' = str ''ls'' \<and> focus st' = Entry \<and> spawned st' = [] \<and>
          \<not> quit_called st') \<and>
   entry_text (build_ui []) = [] \<and> entry_text (append_char [8] (build_ui [])) = []"
proof -
  have x: "KEY_Left \<notin> set exempt_keys"
    by (simp add: exempt_keys_def KEY_Left_def KEY_Tab_def KEY_KP_Tab_def KEY_ISO_Left_Tab_def
        KEY_Escape_def KEY_Return_def KEY_Shift_L_def KEY_Shift_R_def KEY_Control_L_def
        KEY_Control_R_def)
  have z: "sample_keyval_to_unicode KEY_Left = 0"
    by (simp add: sample_keyval_to_unicode_def KEY_Left_def)
  have f: "focus scenario_browsing = SuggestionItem 1"
    "1 < length (suggestion_box scenario_browsing)" "KEY_Left \<noteq> KEY_space"
    by (simp_all add: scenario_browsing_def KEY_Left_def KEY_space_def)
  have v: "entry_text scenario_browsing = str ''ls''" "spawned scenario_browsing = []"
    "\<not> quit_called scenario_browsing"
    by (simp_all add: scenario_browsing_def)
  have e: "entry_text (build_ui []) = []" by (simp add: build_ui_def)
  from unprintable_key_refocuses_entry[where k2u = sample_keyval_to_unicode and keyval = KEY_Left
      and state = 0 and st = scenario_browsing and i = 1, OF x z] f v
  have "\<exists>st'. on_scroller_key_pressed sample_keyval_to_unicode KEY_Left 0 scenario_browsing =
            Inr (True, st') \<and>
          key_pressed sample_keyval_to_unicode KEY_Left 0 scenario_browsing = Inr st' \<and>
          entry_text st' = str ''ls'' \<and> focus st' = Entry \<and> spawned st' = [] \<and>
          \<not> quit_called st'"
    by auto
  moreover from unprintable_key_refocuses_entry[where k2u = sample_keyval_to_unicode and keyval = KEY_Left
      and st = "build_ui []", OF x z] e
  have "entry_text (append_char [8] (build_ui [])) = []" by blast
  ultimately show ?thesis using x z f e by blast
qed

end
